theory Spec2Isabelle
  imports Main "HOL-Library.Sublist" "HOL-Library.Char_ord" "HOL-Library.List_Lexorder"
begin

section \<open>Incremental directory synchronisation (main.go)\<close>

text \<open>
  The program mirrors the files of every subdirectory of a source tree into a destination
  tree. Per destination subdirectory a sentinel file \<open>last_copied.txt\<close> holds the name of the
  greatest file copied so far; a later run copies only the files that sort above it.

  Conventions of the embedding.
  \<^item> A Go \<open>string\<close> is a byte sequence: the HOL type \<open>string\<close>, ordered byte-wise and
    lexicographically (a proper prefix is smaller), as Go's \<open><\<close> on strings.
  \<^item> A path below the source root, or below the destination root, is the list of its
    components; \<open>[]\<close> is the root itself. \<open>filepath.Rel\<close> followed by \<open>filepath.Join\<close> carries
    the path of a source directory to the same list below the destination root.
  \<^item> The source tree is a value that the run only reads; the destination tree is a table
    from paths to nodes that the run updates. The two trees are taken to be disjoint, and
    the only faults of the destination are those of its structure (a file where a directory
    is needed, a directory where a file is needed, a missing directory).
  \<^item> Every call that can fail returns its error as a value.
\<close>

subsection \<open>Errors\<close>

datatype error = ENOENT | ENOTDIR | EISDIR | EIO

subsection \<open>The source tree\<close>

text \<open>
  A regular file of the source tree, with the faults the operating system can report for it:
  \<open>entry.Info()\<close> may fail, \<open>os.Open\<close> may fail, and reading may fail after a number of bytes.
  The size \<open>entry.Info()\<close> reports is the length of the content.
\<close>

record sfile =
  content :: string
  info_fails :: bool
  open_fails :: bool
  read_fails_at :: "nat option"

text \<open>
  A node is a regular file, a directory (with a flag telling that \<open>os.ReadDir\<close> fails on it,
  and the entries \<open>os.ReadDir\<close> returns otherwise), or anything else (symbolic link, device).
\<close>

datatype snode = SFile sfile | SDir bool "(string \<times> snode) list" | SOther

type_synonym path = "string list"
type_synonym entries = "(string \<times> snode) list"

subsection \<open>The destination tree\<close>

datatype dnode = DFile string | DDir

type_synonym dfs = "path \<Rightarrow> dnode option"

text \<open>
  The trace records the writes that completed: a destination directory made by \<open>ensureDir\<close>,
  a file copied (where the program prints its \<open>Copied:\<close> line), a sentinel written.
\<close>

datatype event = MadeDir path | Copied path string | Marked path string

record state =
  dest :: dfs
  trace :: "event list"

subsection \<open>Library functions\<close>

text \<open>
  \<open>strings.TrimSpace\<close>: removes the leading and the trailing white space of a string, white
  space being the runes that Unicode classes as white space, read in UTF-8:
  U+0009..U+000D, U+0020, U+0085, U+00A0, U+1680, U+2000..U+200A, U+2028, U+2029, U+202F,
  U+205F, U+3000.
\<close>

definition spaceRunes :: "string list" where
  "spaceRunes =
    [[CHR 0x09], [CHR 0x0A], [CHR 0x0B], [CHR 0x0C], [CHR 0x0D], [CHR 0x20],
     [CHR 0xC2, CHR 0x85], [CHR 0xC2, CHR 0xA0],
     [CHR 0xE1, CHR 0x9A, CHR 0x80],
     [CHR 0xE2, CHR 0x80, CHR 0x80], [CHR 0xE2, CHR 0x80, CHR 0x81],
     [CHR 0xE2, CHR 0x80, CHR 0x82], [CHR 0xE2, CHR 0x80, CHR 0x83],
     [CHR 0xE2, CHR 0x80, CHR 0x84], [CHR 0xE2, CHR 0x80, CHR 0x85],
     [CHR 0xE2, CHR 0x80, CHR 0x86], [CHR 0xE2, CHR 0x80, CHR 0x87],
     [CHR 0xE2, CHR 0x80, CHR 0x88], [CHR 0xE2, CHR 0x80, CHR 0x89],
     [CHR 0xE2, CHR 0x80, CHR 0x8A],
     [CHR 0xE2, CHR 0x80, CHR 0xA8], [CHR 0xE2, CHR 0x80, CHR 0xA9],
     [CHR 0xE2, CHR 0x80, CHR 0xAF],
     [CHR 0xE2, CHR 0x81, CHR 0x9F],
     [CHR 0xE3, CHR 0x80, CHR 0x80]]"

text \<open>The length of the first listed byte sequence the string starts with, 0 if there is none.\<close>

fun leadLen :: "string list \<Rightarrow> string \<Rightarrow> nat" where
  "leadLen [] s = 0"
| "leadLen (q # qs) s = (if prefix q s then length q else leadLen qs s)"

fun trimLead :: "string list \<Rightarrow> string \<Rightarrow> string" where
  "trimLead qs [] = []"
| "trimLead qs (c # cs) =
     (case leadLen qs (c # cs) of
        0 \<Rightarrow> c # cs
      | Suc k \<Rightarrow> trimLead qs (drop k cs))"

definition TrimSpace :: "string \<Rightarrow> string" where
  "TrimSpace s = rev (trimLead (map rev spaceRunes) (rev (trimLead spaceRunes s)))"

text \<open>
  \<open>filepath.Ext\<close>: the suffix beginning at the final dot of the final path element, empty
  if there is no dot. The scan runs from the end of the string and stops at a separator.
\<close>

fun extScan :: "string \<Rightarrow> string \<Rightarrow> string" where
  "extScan [] acc = []"
| "extScan (c # cs) acc =
     (if c = CHR ''/'' then []
      else if c = CHR ''.'' then c # acc
      else extScan cs (c # acc))"

definition Ext :: "string \<Rightarrow> string" where
  "Ext p = extScan (rev p) []"

text \<open>
  \<open>strings.ToLower\<close> maps every Unicode letter to its lower case; the embedding takes it as a
  parameter \<open>lower\<close> of the functions that use it. \<open>asciiLower\<close> is what it computes on ASCII
  strings.
\<close>

definition asciiLowerChar :: "char \<Rightarrow> char" where
  "asciiLowerChar c =
     (case map_of (zip ''ABCDEFGHIJKLMNOPQRSTUVWXYZ'' ''abcdefghijklmnopqrstuvwxyz'') c of
        None \<Rightarrow> c
      | Some l \<Rightarrow> l)"

definition asciiLower :: "string \<Rightarrow> string" where
  "asciiLower s = map asciiLowerChar s"

text \<open>The operating system's view of the destination tree.\<close>

fun isFile :: "dnode option \<Rightarrow> bool" where
  "isFile (Some (DFile c)) = True"
| "isFile n = False"

text \<open>The error of a lookup that found nothing: a file on the way, or a missing component.\<close>

definition missing :: "dfs \<Rightarrow> path \<Rightarrow> error" where
  "missing t q = (if list_ex (\<lambda>r. isFile (t r)) (prefixes q) then ENOTDIR else ENOENT)"

text \<open>\<open>os.ReadFile\<close>.\<close>

definition ReadFile :: "dfs \<Rightarrow> path \<Rightarrow> error + string" where
  "ReadFile t q =
     (case t q of
        Some (DFile c) \<Rightarrow> Inr c
      | Some DDir \<Rightarrow> Inl EISDIR
      | None \<Rightarrow> Inl (missing t q))"

text \<open>
  \<open>os.MkdirAll\<close>: makes the directory and every missing parent; fails, changing nothing,
  when the path or one of its parents is a file.
\<close>

definition MkdirAll :: "dfs \<Rightarrow> path \<Rightarrow> error + dfs" where
  "MkdirAll t p =
     (if list_ex (\<lambda>r. isFile (t r)) (prefixes p) then Inl ENOTDIR
      else Inr (\<lambda>q. if prefix q p then Some DDir else t q))"

text \<open>
  Opening \<open>d/n\<close> for writing with \<open>O_CREATE|O_TRUNC\<close> (\<open>os.Create\<close>, and the first step of
  \<open>os.WriteFile\<close>): the directory must exist, the name must not be a directory; the file
  is empty afterwards.
\<close>

definition openTrunc :: "dfs \<Rightarrow> path \<Rightarrow> string \<Rightarrow> error + dfs" where
  "openTrunc t d n =
     (case t d of
        Some DDir \<Rightarrow>
          (case t (d @ [n]) of
             Some DDir \<Rightarrow> Inl EISDIR
           | _ \<Rightarrow> Inr (t(d @ [n] \<mapsto> DFile [])))
      | Some (DFile c) \<Rightarrow> Inl ENOTDIR
      | None \<Rightarrow> Inl (missing t d))"

text \<open>\<open>os.WriteFile\<close>.\<close>

definition WriteFile :: "dfs \<Rightarrow> path \<Rightarrow> string \<Rightarrow> string \<Rightarrow> error + dfs" where
  "WriteFile t d n b =
     (case openTrunc t d n of
        Inl e \<Rightarrow> Inl e
      | Inr t1 \<Rightarrow> Inr (t1(d @ [n] \<mapsto> DFile b)))"

text \<open>
  \<open>os.Open\<close> of the file \<open>f\<close> of a source directory with the given entries. Only names of
  regular files are ever opened.
\<close>

definition openSrc :: "entries \<Rightarrow> string \<Rightarrow> error + sfile" where
  "openSrc ents f =
     (case map_of ents f of
        None \<Rightarrow> Inl ENOENT
      | Some (SFile sf) \<Rightarrow> (if open_fails sf then Inl EIO else Inr sf)
      | Some n \<Rightarrow> Inl EIO)"

text \<open>
  \<open>filepath.WalkDir\<close>: the calls of the callback, in order, when the callback returns no
  error: each node before its entries, and a directory that cannot be read a second time
  with the error of \<open>os.ReadDir\<close>.
\<close>

fun WalkDir :: "path \<Rightarrow> snode \<Rightarrow> (path \<times> snode \<times> error option) list" where
  "WalkDir p (SDir unreadable ents) =
     (p, SDir unreadable ents, None) #
     (if unreadable then [(p, SDir unreadable ents, Some EIO)]
      else concat (map (\<lambda>(n, c). WalkDir (p @ [n]) c) ents))"
| "WalkDir p (SFile sf) = [(p, SFile sf, None)]"
| "WalkDir p SOther = [(p, SOther, None)]"

subsection \<open>The program\<close>

text \<open>\<open>isExcluded\<close>: the extension is compared, in lower case, with every excluded one.\<close>

fun isExcludedLoop :: "(string \<Rightarrow> string) \<Rightarrow> string \<Rightarrow> string list \<Rightarrow> bool" where
  "isExcludedLoop lower ext [] = False"
| "isExcludedLoop lower ext (e # es) =
     (if lower e = ext then True else isExcludedLoop lower ext es)"

definition isExcluded :: "(string \<Rightarrow> string) \<Rightarrow> string \<Rightarrow> string list \<Rightarrow> bool" where
  "isExcluded lower ext excludes = isExcludedLoop lower (lower ext) excludes"

definition ensureDir :: "dfs \<Rightarrow> path \<Rightarrow> error + dfs" where
  "ensureDir t p = MkdirAll t p"

definition sentinel :: string where
  "sentinel = ''last_copied.txt''"

definition readLastCopiedFile :: "dfs \<Rightarrow> path \<Rightarrow> error + string" where
  "readLastCopiedFile t distDir =
     (case ReadFile t (distDir @ [sentinel]) of
        Inl e \<Rightarrow> (if e = ENOENT then Inr [] else Inl e)
      | Inr b \<Rightarrow> Inr (TrimSpace b))"

definition writeLastCopiedFile :: "dfs \<Rightarrow> path \<Rightarrow> string \<Rightarrow> error + dfs" where
  "writeLastCopiedFile t distDir filename = WriteFile t distDir sentinel filename"

text \<open>
  \<open>copyFile\<close>: opens the source, creates (truncates) the destination, then \<open>io.Copy\<close>. When
  reading fails after \<open>k\<close> bytes, those bytes have been written and the error is returned.
\<close>

definition copyFile :: "entries \<Rightarrow> string \<Rightarrow> dfs \<Rightarrow> path \<Rightarrow> error option \<times> dfs" where
  "copyFile ents f t distDir =
     (case openSrc ents f of
        Inl e \<Rightarrow> (Some e, t)
      | Inr sf \<Rightarrow>
          (case openTrunc t distDir f of
             Inl e \<Rightarrow> (Some e, t)
           | Inr t1 \<Rightarrow>
               (case read_fails_at sf of
                  None \<Rightarrow> (None, t1(distDir @ [f] \<mapsto> DFile (content sf)))
                | Some k \<Rightarrow> (Some EIO, t1(distDir @ [f] \<mapsto> DFile (take k (content sf)))))))"

text \<open>The first loop of the callback of \<open>syncDir\<close>: the names of the candidate files.\<close>

fun filterFiles :: "(string \<Rightarrow> string) \<Rightarrow> string list \<Rightarrow> entries \<Rightarrow> string list" where
  "filterFiles lower excludedExt [] = []"
| "filterFiles lower excludedExt ((name, SFile sf) # es) =
     (if isExcluded lower (Ext name) excludedExt then filterFiles lower excludedExt es
      else if info_fails sf then filterFiles lower excludedExt es
      else if length (content sf) = 0 then filterFiles lower excludedExt es
      else name # filterFiles lower excludedExt es)"
| "filterFiles lower excludedExt ((name, n) # es) = filterFiles lower excludedExt es"

text \<open>The second loop: the files above the watermark.\<close>

definition selectNew :: "string \<Rightarrow> string list \<Rightarrow> string list" where
  "selectNew lastCopied files = filter (\<lambda>f. lastCopied = [] \<or> f > lastCopied) files"

text \<open>The third loop: the copies, stopping at the first error.\<close>

fun copyLoop :: "entries \<Rightarrow> path \<Rightarrow> string list \<Rightarrow> state \<Rightarrow> error option \<times> state" where
  "copyLoop ents distDir [] st = (None, st)"
| "copyLoop ents distDir (f # fs) st =
     (case copyFile ents f (dest st) distDir of
        (Some e, t) \<Rightarrow> (Some e, st\<lparr>dest := t\<rparr>)
      | (None, t) \<Rightarrow>
          copyLoop ents distDir fs (st\<lparr>dest := t, trace := trace st @ [Copied distDir f]\<rparr>))"

text \<open>
  The body of the callback for the subdirectory at \<open>p\<close> whose listing is \<open>ents\<close>.
\<close>

definition processDir ::
  "(string \<Rightarrow> string) \<Rightarrow> string list \<Rightarrow> path \<Rightarrow> entries \<Rightarrow> state \<Rightarrow> error option \<times> state" where
  "processDir lower excludedExt p ents st =
     (let files = filterFiles lower excludedExt ents in
      if length files = 0 then (None, st)
      else
        (case readLastCopiedFile (dest st) p of
           Inl e \<Rightarrow> (Some e, st)
         | Inr lastCopied \<Rightarrow>
             (let toCopy = selectNew lastCopied (sort files) in
              if length toCopy = 0 then (None, st)
              else
                (case ensureDir (dest st) p of
                   Inl e \<Rightarrow> (Some e, st)
                 | Inr t1 \<Rightarrow>
                     (case copyLoop ents p toCopy (st\<lparr>dest := t1, trace := trace st @ [MadeDir p]\<rparr>) of
                        (Some e, st2) \<Rightarrow> (Some e, st2)
                      | (None, st2) \<Rightarrow>
                          (case writeLastCopiedFile (dest st2) p (last toCopy) of
                             Inl e \<Rightarrow> (Some e, st2)
                           | Inr t3 \<Rightarrow>
                               (None, st2\<lparr>dest := t3,
                                          trace := trace st2 @ [Marked p (last toCopy)]\<rparr>)))))))"

text \<open>The callback, with the arguments \<open>WalkDir\<close> passes: path, entry, error.\<close>

fun callback ::
  "(string \<Rightarrow> string) \<Rightarrow> string list \<Rightarrow> path \<times> snode \<times> error option \<Rightarrow> state \<Rightarrow> error option \<times> state" where
  "callback lower excludedExt (p, d, Some e) st = (Some e, st)"
| "callback lower excludedExt (p, SDir unreadable ents, None) st =
     (if p = [] then (None, st)
      else if unreadable then (Some EIO, st)
      else processDir lower excludedExt p ents st)"
| "callback lower excludedExt (p, d, None) st = (None, st)"

text \<open>The walk stops at the first error the callback returns.\<close>

fun walkLoop ::
  "(string \<Rightarrow> string) \<Rightarrow> string list \<Rightarrow> (path \<times> snode \<times> error option) list \<Rightarrow> state \<Rightarrow> error option \<times> state" where
  "walkLoop lower excludedExt [] st = (None, st)"
| "walkLoop lower excludedExt (v # vs) st =
     (case callback lower excludedExt v st of
        (Some e, st1) \<Rightarrow> (Some e, st1)
      | (None, st1) \<Rightarrow> walkLoop lower excludedExt vs st1)"

text \<open>\<open>syncDir\<close>; a source root that does not exist is \<open>None\<close>.\<close>

definition syncDir ::
  "(string \<Rightarrow> string) \<Rightarrow> string list \<Rightarrow> snode option \<Rightarrow> state \<Rightarrow> error option \<times> state" where
  "syncDir lower excludedExt srcRoot st =
     (case srcRoot of
        None \<Rightarrow> (Some ENOENT, st)
      | Some root \<Rightarrow> walkLoop lower excludedExt (WalkDir [] root) st)"

subsection \<open>Notions used in the statements, and example data\<close>


text \<open>Example data: a regular file without faults.\<close>

definition plainFile :: "string \<Rightarrow> snode" where
  "plainFile c = SFile \<lparr>content = c, info_fails = False, open_fails = False, read_fails_at = None\<rparr>"

definition emptyDest :: state where
  "emptyDest = \<lparr>dest = Map.empty, trace = []\<rparr>"

definition demoDir :: entries where
  "demoDir = [(''a.txt'', plainFile ''twelve bytes''), (''b.log'', plainFile ''five!''), (''c.txt'', plainFile '''')]"

text \<open>An event a run may add: it belongs to a readable subdirectory the walk visits.\<close>

definition justified :: "(string \<Rightarrow> string) \<Rightarrow> string list \<Rightarrow> (path \<times> snode \<times> error option) list \<Rightarrow> event \<Rightarrow> bool" where
  "justified lower ex vs e =
     (\<exists>p ents. (p, SDir False ents, None) \<in> set vs \<and> p \<noteq> [] \<and>
        (e = MadeDir p \<or> (\<exists>f\<in>set (filterFiles lower ex ents). e = Copied p f) \<or>
         (\<exists>w. e = Marked p w)))"






text \<open>The example of the specification: \<open>a.txt\<close> (12 bytes), \<open>b.log\<close> (5 bytes), \<open>c.txt\<close> (empty), with \<open>.log\<close> excluded; and the destination after the first run.\<close>

definition demoTree :: snode where
  "demoTree = SDir False [(''readme.txt'', plainFile ''root file''), (''d'', SDir False demoDir)]"

definition demoAfter :: state where
  "demoAfter =
     \<lparr>dest = (\<lambda>q. if prefix q [''d''] then Some DDir else None)
               ([''d'', ''a.txt''] \<mapsto> DFile ''twelve bytes'',
                [''d'', ''last_copied.txt''] \<mapsto> DFile ''a.txt''),
      trace = [MadeDir [''d''], Copied [''d''] ''a.txt'', Marked [''d''] ''a.txt'']\<rparr>"



text \<open>Two successive contents of a directory.\<close>

definition widerTree :: snode where
  "widerTree = SDir False [(''d'', SDir False [(''b  '', plainFile ''x'')])]"

definition narrowerTree :: snode where
  "narrowerTree = SDir False [(''d'', SDir False [(''b '', plainFile ''y'')])]"

definition widerAfter :: state where
  "widerAfter =
     \<lparr>dest = (\<lambda>q. if prefix q [''d''] then Some DDir else None)
               ([''d'', ''b  ''] \<mapsto> DFile ''x'',
                [''d'', ''last_copied.txt''] \<mapsto> DFile ''b  ''),
      trace = [MadeDir [''d''], Copied [''d''] ''b  '', Marked [''d''] ''b  '']\<rparr>"

text \<open>A file whose metadata cannot be read.\<close>

definition brokenInfo :: sfile where
  "brokenInfo = \<lparr>content = ''x'', info_fails = True, open_fails = False, read_fails_at = None\<rparr>"

definition brokenInfoTree :: snode where
  "brokenInfoTree =
     SDir False [(''d'', SDir False [(''a.txt'', SFile brokenInfo), (''b.txt'', plainFile ''y'')])]"




text \<open>The example directory with \<open>d.txt\<close> (3 bytes) added.\<close>

definition demoDir2 :: entries where
  "demoDir2 = demoDir @ [(''d.txt'', plainFile ''3 B'')]"

text \<open>A subdirectory that cannot be listed.\<close>

definition unreadableTree :: snode where
  "unreadableTree = SDir False [(''d'', SDir True [])]"


section \<open>Properties\<close>

subsection \<open>Loops, frames and traces\<close>



lemma copyFile_frame: "copyFile ents f t d = (r, t') \<Longrightarrow> q \<noteq> d @ [f] \<Longrightarrow> t' q = t q"
  by (auto simp: copyFile_def openTrunc_def split: sum.splits option.splits dnode.splits)

lemma copyLoop_trace: "copyLoop ents d fs st = (None, st') \<Longrightarrow> trace st' = trace st @ map (Copied d) fs"
proof (induction fs arbitrary: st)
  case Nil
  then show ?case by simp
next
  case (Cons f fs)
  then show ?case by (auto split: prod.splits option.splits)
qed

lemma copyLoop_trace_any:
  "copyLoop ents d fs st = (r, st') \<Longrightarrow> \<exists>k. trace st' = trace st @ map (Copied d) (take k fs)"
proof (induction fs arbitrary: st)
  case Nil
  then show ?case by simp
next
  case (Cons f fs)
  show ?case
  proof (cases "copyFile ents f (dest st) d")
    case (Pair e t)
    show ?thesis
    proof (cases e)
      case None
      with Pair Cons.prems
      have "copyLoop ents d fs (st\<lparr>dest := t, trace := trace st @ [Copied d f]\<rparr>) = (r, st')" by simp
      from Cons.IH[OF this] obtain k where
        "trace st' = (trace st @ [Copied d f]) @ map (Copied d) (take k fs)" by auto
      then have "trace st' = trace st @ map (Copied d) (take (Suc k) (f # fs))" by simp
      then show ?thesis by blast
    next
      case (Some a)
      with Pair Cons.prems have "trace st' = trace st @ map (Copied d) (take 0 (f # fs))" by auto
      then show ?thesis by blast
    qed
  qed
qed

lemma copyLoop_frame:
  "copyLoop ents d fs st = (r, st') \<Longrightarrow> \<forall>f\<in>set fs. q \<noteq> d @ [f] \<Longrightarrow> dest st' q = dest st q"
proof (induction fs arbitrary: st)
  case Nil
  then show ?case by simp
next
  case (Cons f fs)
  show ?case
  proof (cases "copyFile ents f (dest st) d")
    case (Pair e t)
    have t: "t q = dest st q" using copyFile_frame[OF Pair] Cons.prems(2) by simp
    show ?thesis
    proof (cases e)
      case None
      with Pair Cons.prems
      have "copyLoop ents d fs (st\<lparr>dest := t, trace := trace st @ [Copied d f]\<rparr>) = (r, st')" by simp
      from Cons.IH[OF this] Cons.prems(2) t show ?thesis by simp
    next
      case (Some a)
      with Pair Cons.prems t show ?thesis by auto
    qed
  qed
qed

lemma processDir_ok:
  assumes "processDir lower ex p ents st = (None, st')"
    and "readLastCopiedFile (dest st) p = Inr W"
  shows "(selectNew W (sort (filterFiles lower ex ents)) = [] \<and> st' = st) \<or>
         (selectNew W (sort (filterFiles lower ex ents)) \<noteq> [] \<and>
          (\<exists>t1 st2 t3. ensureDir (dest st) p = Inr t1 \<and>
             copyLoop ents p (selectNew W (sort (filterFiles lower ex ents)))
               (st\<lparr>dest := t1, trace := trace st @ [MadeDir p]\<rparr>) = (None, st2) \<and>
             writeLastCopiedFile (dest st2) p (last (selectNew W (sort (filterFiles lower ex ents)))) = Inr t3 \<and>
             st' = st2\<lparr>dest := t3, trace := trace st2 @ [Marked p (last (selectNew W (sort (filterFiles lower ex ents))))]\<rparr>))"
proof (cases "filterFiles lower ex ents = []")
  case True
  with assms show ?thesis by (simp add: processDir_def selectNew_def)
next
  case False
  with assms show ?thesis
    by (auto simp: processDir_def Let_def split: sum.splits prod.splits option.splits if_splits)
qed

subsection \<open>Selection\<close>

lemma sorted_selectNew: "sorted (selectNew W (sort fs))"
  by (simp add: selectNew_def sorted_filter[where f="\<lambda>x. x", simplified])

lemma set_selectNew: "set (selectNew W (sort fs)) = {f \<in> set fs. W = [] \<or> W < f}"
  by (auto simp: selectNew_def)

lemma last_selectNew_max:
  assumes "selectNew W (sort fs) \<noteq> []" and "f \<in> set (selectNew W (sort fs))"
  shows "f \<le> last (selectNew W (sort fs))"
proof -
  obtain ys y where ys: "selectNew W (sort fs) = ys @ [y]"
    using assms(1) by (metis rev_exhaust)
  have "sorted (ys @ [y])" using sorted_selectNew[of W fs] ys by simp
  then have "\<forall>x\<in>set ys. x \<le> y" by (simp add: sorted_append)
  with assms(2) ys show ?thesis by auto
qed

lemma WriteFile_ok: "WriteFile t d n b = Inr t' \<Longrightarrow> t' = t(d @ [n] \<mapsto> DFile b)"
  by (auto simp: WriteFile_def openTrunc_def split: sum.splits option.splits dnode.splits)

lemma WriteFile_frame: "WriteFile t d n b = Inr t' \<Longrightarrow> q \<noteq> d @ [n] \<Longrightarrow> t' q = t q"
  by (auto dest: WriteFile_ok)


lemma processDir_changed:
  assumes "processDir lower ex p ents st = (r, st')" and "st' \<noteq> st"
  shows "\<exists>W t1 r2 st2. readLastCopiedFile (dest st) p = Inr W \<and>
           selectNew W (sort (filterFiles lower ex ents)) \<noteq> [] \<and>
           ensureDir (dest st) p = Inr t1 \<and>
           copyLoop ents p (selectNew W (sort (filterFiles lower ex ents)))
             (st\<lparr>dest := t1, trace := trace st @ [MadeDir p]\<rparr>) = (r2, st2) \<and>
           (st' = st2 \<or>
            (r2 = None \<and> r = None \<and>
              (\<exists>t3. writeLastCopiedFile (dest st2) p
                       (last (selectNew W (sort (filterFiles lower ex ents)))) = Inr t3 \<and>
                    st' = st2\<lparr>dest := t3,
                      trace := trace st2 @
                        [Marked p (last (selectNew W (sort (filterFiles lower ex ents))))]\<rparr>)))"
  using assms
  by (auto simp: processDir_def Let_def split: sum.splits prod.splits option.splits if_splits)

lemma MkdirAll_frame: "MkdirAll t p = Inr t' \<Longrightarrow> \<not> prefix q p \<Longrightarrow> t' q = t q"
  by (auto simp: MkdirAll_def split: if_splits)

lemma set_selectNew_subset: "set (selectNew W (sort fs)) \<subseteq> set fs"
  by (auto simp: selectNew_def)

lemma processDir_frame:
  assumes "processDir lower ex p ents st = (r, st')" and "dest st' q \<noteq> dest st q"
  shows "prefix q p \<or> q = p @ [sentinel] \<or> (\<exists>f\<in>set (filterFiles lower ex ents). q = p @ [f])"
proof (rule ccontr)
  assume n: "\<not> ?thesis"
  from assms(2) have "st' \<noteq> st" by auto
  from processDir_changed[OF assms(1) this] obtain W t1 r2 st2 where
    e: "ensureDir (dest st) p = Inr t1"
    and c: "copyLoop ents p (selectNew W (sort (filterFiles lower ex ents)))
             (st\<lparr>dest := t1, trace := trace st @ [MadeDir p]\<rparr>) = (r2, st2)"
    and f: "st' = st2 \<or> (\<exists>t3. writeLastCopiedFile (dest st2) p
                       (last (selectNew W (sort (filterFiles lower ex ents)))) = Inr t3 \<and>
                    st' = st2\<lparr>dest := t3,
                      trace := trace st2 @
                        [Marked p (last (selectNew W (sort (filterFiles lower ex ents))))]\<rparr>)"
    by blast
  have 1: "t1 q = dest st q" using e n MkdirAll_frame by (simp add: ensureDir_def)
  have "\<forall>f\<in>set (selectNew W (sort (filterFiles lower ex ents))). q \<noteq> p @ [f]"
    using n set_selectNew_subset by blast
  from copyLoop_frame[OF c this] have 2: "dest st2 q = t1 q" by simp
  have 3: "dest st' q = dest st2 q"
    using f n WriteFile_frame by (auto simp: writeLastCopiedFile_def)
  from 1 2 3 assms(2) show False by simp
qed

lemma processDir_trace:
  assumes "processDir lower ex p ents st = (r, st')"
  shows "\<exists>new. trace st' = trace st @ new \<and>
           (\<forall>e\<in>set new. e = MadeDir p \<or> (\<exists>f\<in>set (filterFiles lower ex ents). e = Copied p f) \<or>
                          (\<exists>w. e = Marked p w))"
proof (cases "st' = st")
  case True
  then show ?thesis by simp
next
  case False
  from processDir_changed[OF assms this] obtain W t1 r2 st2 where
    c: "copyLoop ents p (selectNew W (sort (filterFiles lower ex ents)))
             (st\<lparr>dest := t1, trace := trace st @ [MadeDir p]\<rparr>) = (r2, st2)"
    and f: "st' = st2 \<or> (\<exists>t3. 
                    st' = st2\<lparr>dest := t3,
                      trace := trace st2 @
                        [Marked p (last (selectNew W (sort (filterFiles lower ex ents))))]\<rparr>)"
    by blast
  from copyLoop_trace_any[OF c] obtain k where
    k: "trace st2 = trace st @ MadeDir p # map (Copied p) (take k (selectNew W (sort (filterFiles lower ex ents))))"
    by auto
  have s: "\<forall>e\<in>set (map (Copied p) (take k (selectNew W (sort (filterFiles lower ex ents))))).
             \<exists>f\<in>set (filterFiles lower ex ents). e = Copied p f"
    using set_selectNew_subset[of W "filterFiles lower ex ents"] by (auto dest: in_set_takeD)
  from f show ?thesis
  proof
    assume "st' = st2"
    with k s show ?thesis by auto
  next
    assume "\<exists>t3. st' = st2\<lparr>dest := t3,
                      trace := trace st2 @
                        [Marked p (last (selectNew W (sort (filterFiles lower ex ents))))]\<rparr>"
    then have "trace st' = trace st @ (MadeDir p # map (Copied p) (take k (selectNew W (sort (filterFiles lower ex ents))))
         @ [Marked p (last (selectNew W (sort (filterFiles lower ex ents))))])"
      using k by auto
    moreover have "\<forall>e\<in>set (MadeDir p # map (Copied p) (take k (selectNew W (sort (filterFiles lower ex ents))))
         @ [Marked p (last (selectNew W (sort (filterFiles lower ex ents))))]).
           e = MadeDir p \<or> (\<exists>f\<in>set (filterFiles lower ex ents). e = Copied p f) \<or> (\<exists>w. e = Marked p w)"
      using s by auto
    ultimately show ?thesis by blast
  qed
qed

lemma callback_cases:
  assumes "callback lower ex (p, d, e) st = (r, st')"
  shows "st' = st \<or> (\<exists>ents. d = SDir False ents \<and> e = None \<and> p \<noteq> [] \<and>
                       processDir lower ex p ents st = (r, st'))"
  using assms by (cases "(lower, ex, (p, d, e), st)" rule: callback.cases) (auto split: if_splits)

lemma walkLoop_inv:
  assumes "walkLoop lower ex vs st = (r, st')" and "P st"
    and "\<And>p ents s r1 s1. (p, SDir False ents, None) \<in> set vs \<Longrightarrow> p \<noteq> [] \<Longrightarrow> P s \<Longrightarrow>
           processDir lower ex p ents s = (r1, s1) \<Longrightarrow> P s1"
  shows "P st'"
  using assms
proof (induction vs arbitrary: st)
  case Nil
  then show ?case by simp
next
  case (Cons v vs)
  obtain p d e where v: "v = (p, d, e)" by (cases v) auto
  obtain r1 st1 where c: "callback lower ex v st = (r1, st1)" by (cases "callback lower ex v st") auto
  have P1: "P st1"
    using callback_cases[OF c[unfolded v]] Cons.prems(2) Cons.prems(3)[of p _ st r1 st1] v
    by auto
  show ?case
  proof (cases r1)
    case None
    with c Cons.prems(1) have "walkLoop lower ex vs st1 = (r, st')" by simp
    then show ?thesis
    proof (rule Cons.IH[OF _ P1])
      fix p ents s r1 s1
      assume "(p, SDir False ents, None) \<in> set vs" "p \<noteq> []" "P s"
        "processDir lower ex p ents s = (r1, s1)"
      then show "P s1" using Cons.prems(3)[of p ents s r1 s1] by simp
    qed
  next
    case (Some a)
    with c Cons.prems(1) have "st' = st1" by simp
    with P1 show ?thesis by simp
  qed
qed

subsection \<open>The walk\<close>

lemma walk_prefix: "(q, d, e) \<in> set (WalkDir p n) \<Longrightarrow> prefix p q"
proof (induction p n arbitrary: q d e rule: WalkDir.induct)
  case (1 p unreadable ents)
  show ?case
  proof (cases "q = p")
    case True
    then show ?thesis by simp
  next
    case False
    with "1.prems" obtain name c where m: "(name, c) \<in> set ents" "\<not> unreadable"
      and w: "(q, d, e) \<in> set (WalkDir (p @ [name]) c)"
      by (auto split: if_splits)
    from "1.IH"[OF m(2) m(1) refl w] have "prefix (p @ [name]) q" .
    then show ?thesis by (meson append_prefixD)
  qed
qed simp_all

lemma walk_dir_origin:
  "(q, SDir u es, e) \<in> set (WalkDir p n) \<Longrightarrow> \<exists>u' es'. n = SDir u' es'"
  by (cases n) auto

lemma walk_child:
  assumes "(q, d, e) \<in> set (WalkDir p (SDir u ents))" and "q \<noteq> p"
  shows "\<exists>name c. (name, c) \<in> set ents \<and> (q, d, e) \<in> set (WalkDir (p @ [name]) c)"
  using assms by (auto split: if_splits)

lemma walk_unreadable:
  "(q, SDir True es, e) \<in> set (WalkDir p n) \<Longrightarrow> (q, SDir True es, Some EIO) \<in> set (WalkDir p n)"
proof (induction p n arbitrary: q es e rule: WalkDir.induct)
  case (1 p unreadable ents)
  show ?case
  proof (cases unreadable)
    case True
    with "1.prems" show ?thesis by auto
  next
    case False
    with "1.prems" obtain name c where m: "(name, c) \<in> set ents"
      and w: "(q, SDir True es, e) \<in> set (WalkDir (p @ [name]) c)"
      by auto
    from "1.IH"[OF False m refl w] m False show ?thesis by auto
  qed
qed simp_all

lemma walk_below_root:
  assumes "(q, SDir u es, e) \<in> set (WalkDir [] root)" and "q \<noteq> []"
  shows "\<exists>un ents u' es'. root = SDir un ents \<and> (hd q, SDir u' es') \<in> set ents"
proof -
  from walk_dir_origin[OF assms(1)] obtain un ents where r: "root = SDir un ents" by blast
  from walk_child[OF assms(1)[unfolded r] assms(2)] obtain name c where
    m: "(name, c) \<in> set ents" and w: "(q, SDir u es, e) \<in> set (WalkDir ([] @ [name]) c)" by blast
  from walk_dir_origin[OF w] obtain u' es' where c: "c = SDir u' es'" by blast
  from walk_prefix[OF w] have "hd q = name" by (auto simp: prefix_def)
  with r m c show ?thesis by blast
qed

lemma run_trace:
  assumes "walkLoop lower ex vs st = (r, st')"
  shows "\<exists>new. trace st' = trace st @ new \<and> (\<forall>e\<in>set new. justified lower ex vs e)"
proof -
  let ?P = "\<lambda>s. \<exists>new. trace s = trace st @ new \<and> (\<forall>e\<in>set new. justified lower ex vs e)"
  have "?P st'"
  proof (rule walkLoop_inv[where P = ?P, OF assms])
    show "?P st" by simp
  next
    fix p ents s r1 s1
    assume v: "(p, SDir False ents, None) \<in> set vs" "p \<noteq> []"
      and P: "?P s"
      and c: "processDir lower ex p ents s = (r1, s1)"
    from P obtain new where n: "trace s = trace st @ new"
      "\<forall>e\<in>set new. justified lower ex vs e" by blast
    from processDir_trace[OF c] obtain new1 where n1: "trace s1 = trace s @ new1"
      "\<forall>e\<in>set new1. e = MadeDir p \<or> (\<exists>f\<in>set (filterFiles lower ex ents). e = Copied p f) \<or>
                          (\<exists>w. e = Marked p w)" by blast
    have "\<forall>e\<in>set new1. justified lower ex vs e"
    proof
      fix e assume "e \<in> set new1"
      with n1(2) have "e = MadeDir p \<or> (\<exists>f\<in>set (filterFiles lower ex ents). e = Copied p f) \<or>
                          (\<exists>w. e = Marked p w)" by simp
      with v show "justified lower ex vs e"
        unfolding justified_def by (intro exI[of _ p] exI[of _ ents]) simp
    qed
    with n(2) have "\<forall>e\<in>set (new @ new1). justified lower ex vs e" by auto
    moreover have "trace s1 = trace st @ (new @ new1)" using n(1) n1(1) by simp
    ultimately show "?P s1" by blast
  qed
  then show ?thesis .
qed

lemma run_frame:
  assumes "walkLoop lower ex vs st = (r, st')" and "dest st' q \<noteq> dest st q"
  shows "\<exists>p ents. (p, SDir False ents, None) \<in> set vs \<and> p \<noteq> [] \<and>
              (prefix q p \<or> q = p @ [sentinel] \<or> (\<exists>f\<in>set (filterFiles lower ex ents). q = p @ [f]))"
proof -
  let ?J = "\<exists>p ents. (p, SDir False ents, None) \<in> set vs \<and> p \<noteq> [] \<and>
              (prefix q p \<or> q = p @ [sentinel] \<or> (\<exists>f\<in>set (filterFiles lower ex ents). q = p @ [f]))"
  let ?P = "\<lambda>s. dest s q \<noteq> dest st q \<longrightarrow> ?J"
  have "?P st'"
  proof (rule walkLoop_inv[where P = ?P, OF assms(1)])
    show "?P st" by simp
  next
    fix p ents s r1 s1
    assume v: "(p, SDir False ents, None) \<in> set vs" "p \<noteq> []"
      and P: "?P s"
      and c: "processDir lower ex p ents s = (r1, s1)"
    show "?P s1"
    proof (cases "dest s1 q = dest s q")
      case True
      with P show ?thesis by simp
    next
      case False
      from processDir_frame[OF c False] v have ?J
        by (intro exI[of _ p] exI[of _ ents]) simp
      then show ?thesis by simp
    qed
  qed
  with assms(2) show ?thesis by simp
qed

subsection \<open>Filtering, and what a run may copy\<close>

lemma isExcludedLoop_iff: "isExcludedLoop lower x ex \<longleftrightarrow> (\<exists>e\<in>set ex. lower e = x)"
  by (induction ex) auto

lemma isExcluded_iff: "isExcluded lower ext ex \<longleftrightarrow> (\<exists>e\<in>set ex. lower e = lower ext)"
  by (simp add: isExcluded_def isExcludedLoop_iff)

lemma filterFiles_set:
  "n \<in> set (filterFiles lower ex ents) \<longleftrightarrow>
     (\<exists>sf. (n, SFile sf) \<in> set ents \<and> \<not> isExcluded lower (Ext n) ex \<and>
           \<not> info_fails sf \<and> content sf \<noteq> [])"
  by (induction lower ex ents rule: filterFiles.induct) auto

lemma syncDir_Some: "syncDir lower ex (Some root) st = walkLoop lower ex (WalkDir [] root) st"
  by (simp add: syncDir_def)

text \<open>
  C5 (exclusion). Every file a run copies is a regular file of a subdirectory of the source
  root, its extension equals no excluded extension when both are put in lower case, its
  metadata could be read and its size is not zero. So a file with an excluded extension, and
  a file of size 0, is never copied.
\<close>

theorem only_eligible_files_copied:
  assumes "syncDir lower excludedExt (Some root) st = (r, st')"
    and "trace st' = trace st @ new"
    and "Copied p f \<in> set new"
  shows "\<exists>ents sf. (p, SDir False ents, None) \<in> set (WalkDir [] root) \<and> p \<noteq> [] \<and>
           (f, SFile sf) \<in> set ents \<and>
           (\<forall>e\<in>set excludedExt. lower e \<noteq> lower (Ext f)) \<and>
           content sf \<noteq> [] \<and> \<not> info_fails sf"
proof -
  from run_trace[OF assms(1)[unfolded syncDir_Some]] assms(2,3)
  have "justified lower excludedExt (WalkDir [] root) (Copied p f)" by auto
  then obtain ents where v: "(p, SDir False ents, None) \<in> set (WalkDir [] root)" "p \<noteq> []"
    and f: "f \<in> set (filterFiles lower excludedExt ents)"
    unfolding justified_def by auto
  from f obtain sf where "(f, SFile sf) \<in> set ents" "\<not> isExcluded lower (Ext f) excludedExt"
    "\<not> info_fails sf" "content sf \<noteq> []"
    unfolding filterFiles_set by blast
  with v show ?thesis unfolding isExcluded_iff by blast
qed

text \<open>
  C10 (files of the source root). A run never makes, copies into or marks the root of the
  destination as a synchronised directory; whatever it changes below the destination root
  lies under the name of a subdirectory of the source root. So, names in a directory being
  distinct, nothing at or below the name of a regular file of the source root is created
  or changed.
\<close>

theorem root_files_never_copied:
  assumes "syncDir lower excludedExt (Some root) st = (r, st')"
    and "trace st' = trace st @ new"
  shows "(\<forall>e\<in>set new. \<forall>x. e \<noteq> MadeDir [] \<and> e \<noteq> Copied [] x \<and> e \<noteq> Marked [] x) \<and>
         (\<forall>q. dest st' q \<noteq> dest st q \<longrightarrow>
              q = [] \<or> (\<exists>un ents u es. root = SDir un ents \<and> (hd q, SDir u es) \<in> set ents)) \<and>
         (\<forall>un ents f sf q. root = SDir un ents \<and> distinct (map fst ents) \<and>
              (f, SFile sf) \<in> set ents \<and> q \<noteq> [] \<and> hd q = f \<longrightarrow> dest st' q = dest st q)"
proof -
  have w: "walkLoop lower excludedExt (WalkDir [] root) st = (r, st')"
    using assms(1) by (simp add: syncDir_Some)
  have 1: "\<forall>e\<in>set new. \<forall>x. e \<noteq> MadeDir [] \<and> e \<noteq> Copied [] x \<and> e \<noteq> Marked [] x"
  proof
    fix e assume "e \<in> set new"
    with run_trace[OF w] assms(2) have "justified lower excludedExt (WalkDir [] root) e" by auto
    then show "\<forall>x. e \<noteq> MadeDir [] \<and> e \<noteq> Copied [] x \<and> e \<noteq> Marked [] x"
      unfolding justified_def by auto
  qed
  have 2: "\<forall>q. dest st' q \<noteq> dest st q \<longrightarrow>
              q = [] \<or> (\<exists>un ents u es. root = SDir un ents \<and> (hd q, SDir u es) \<in> set ents)"
  proof (intro allI impI)
    fix q assume "dest st' q \<noteq> dest st q"
    from run_frame[OF w this] obtain p ents where
      v: "(p, SDir False ents, None) \<in> set (WalkDir [] root)" "p \<noteq> []"
      and q: "prefix q p \<or> (\<exists>x. q = p @ [x])" by blast
    from walk_below_root[OF v] obtain un rents u' es' where
      r: "root = SDir un rents" "(hd p, SDir u' es') \<in> set rents" by blast
    from q v(2) have "q = [] \<or> hd q = hd p" by (auto simp: prefix_def)
    with r show "q = [] \<or> (\<exists>un ents u es. root = SDir un ents \<and> (hd q, SDir u es) \<in> set ents)"
      by auto
  qed
  have 3: "\<forall>un ents f sf q. root = SDir un ents \<and> distinct (map fst ents) \<and>
              (f, SFile sf) \<in> set ents \<and> q \<noteq> [] \<and> hd q = f \<longrightarrow> dest st' q = dest st q"
  proof (intro allI impI, elim conjE)
    fix un ents f sf q
    assume a: "root = SDir un ents" "distinct (map fst ents)" "(f, SFile sf) \<in> set ents"
      "q \<noteq> []" "hd q = f"
    show "dest st' q = dest st q"
    proof (rule ccontr)
      assume "dest st' q \<noteq> dest st q"
      with 2 a obtain u es where "(f, SDir u es) \<in> set ents" by auto
      with a(2,3) have "SFile sf = SDir u es" by (meson eq_key_imp_eq_value)
      then show False by simp
    qed
  qed
  from 1 2 3 show ?thesis by blast
qed

lemma walkLoop_error:
  assumes "v \<in> set vs" and "\<And>s. fst (callback lower ex v s) \<noteq> None"
  shows "fst (walkLoop lower ex vs st) \<noteq> None"
  using assms(1)
proof (induction vs arbitrary: st)
  case Nil
  then show ?case by simp
next
  case (Cons a vs)
  obtain r1 st1 where c: "callback lower ex a st = (r1, st1)" by (cases "callback lower ex a st") auto
  show ?case
  proof (cases r1)
    case None
    with c assms(2)[of st] have "a \<noteq> v" by auto
    with Cons.prems have "v \<in> set vs" by simp
    from Cons.IH[OF this] c None show ?thesis by simp
  next
    case (Some e)
    with c show ?thesis by simp
  qed
qed

lemma filterFiles_append:
  "filterFiles lower ex (xs @ ys) = filterFiles lower ex xs @ filterFiles lower ex ys"
  by (induction lower ex xs rule: filterFiles.induct) auto

text \<open>
  C4 (errors while listing), as amended. An error of \<open>os.ReadDir\<close> on any directory of the
  walk, or a missing source root, makes the whole run return an error. An error of
  \<open>entry.Info()\<close> does not: the entry is skipped, and the directory is processed as if the
  entry were not listed.
\<close>

theorem listing_error_aborts_metadata_error_skips:
  "((p, SDir True ents, e) \<in> set (WalkDir [] root) \<longrightarrow>
      fst (syncDir lower excludedExt (Some root) st) \<noteq> None) \<and>
   (info_fails sf \<longrightarrow>
      filterFiles lower excludedExt (xs @ (n, SFile sf) # ys) = filterFiles lower excludedExt (xs @ ys)) \<and>
   syncDir lower excludedExt None st = (Some ENOENT, st)"
proof (intro conjI impI)
  assume "(p, SDir True ents, e) \<in> set (WalkDir [] root)"
  from walk_unreadable[OF this] have "(p, SDir True ents, Some EIO) \<in> set (WalkDir [] root)" .
  from walkLoop_error[OF this] show "fst (syncDir lower excludedExt (Some root) st) \<noteq> None"
    by (simp add: syncDir_Some)
next
  assume "info_fails sf"
  then show "filterFiles lower excludedExt (xs @ (n, SFile sf) # ys) = filterFiles lower excludedExt (xs @ ys)"
    by (simp add: filterFiles_append)
next
  show "syncDir lower excludedExt None st = (Some ENOENT, st)" by (simp add: syncDir_def)
qed

subsection \<open>A second run\<close>

lemma read_file: "t (p @ [sentinel]) = Some (DFile c) \<Longrightarrow> readLastCopiedFile t p = Inr (TrimSpace c)"
  by (simp add: readLastCopiedFile_def ReadFile_def)


lemma selectNew_empty_watermark: "selectNew [] fs = fs"
  by (simp add: selectNew_def)




lemma MkdirAll_keeps_files:
  assumes "MkdirAll t p = Inr t'" and "t q = Some (DFile c)"
  shows "t' q = Some (DFile c)"
proof (cases "prefix q p")
  case True
  then have "q \<in> set (prefixes p)" by simp
  with assms(2) have "list_ex (\<lambda>r. isFile (t r)) (prefixes p)"
    unfolding list_ex_iff by force
  with assms(1) show ?thesis by (simp add: MkdirAll_def)
next
  case False
  with MkdirAll_frame[OF assms(1)] assms(2) show ?thesis by simp
qed

lemma last_sel_facts:
  assumes "selectNew W (sort fs) \<noteq> []"
  shows "last (selectNew W (sort fs)) \<in> set fs"
    and "W = [] \<or> W < last (selectNew W (sort fs))"
    and "\<forall>f\<in>set fs. f \<le> last (selectNew W (sort fs)) \<or> (W \<noteq> [] \<and> f \<le> W)"
proof -
  have m: "last (selectNew W (sort fs)) \<in> set (selectNew W (sort fs))" using assms by simp
  then show "last (selectNew W (sort fs)) \<in> set fs" "W = [] \<or> W < last (selectNew W (sort fs))"
    unfolding set_selectNew by auto
  show "\<forall>f\<in>set fs. f \<le> last (selectNew W (sort fs)) \<or> (W \<noteq> [] \<and> f \<le> W)"
  proof
    fix f assume f: "f \<in> set fs"
    show "f \<le> last (selectNew W (sort fs)) \<or> (W \<noteq> [] \<and> f \<le> W)"
    proof (cases "f \<in> set (selectNew W (sort fs))")
      case True
      from last_selectNew_max[OF assms True] show ?thesis by simp
    next
      case False
      with f show ?thesis unfolding set_selectNew by auto
    qed
  qed
qed

lemma processDir_sentinel:
  assumes "processDir lower ex p ents st = (None, st')"
    and "readLastCopiedFile (dest st) p = Inr W"
    and "selectNew W (sort (filterFiles lower ex ents)) \<noteq> []"
  shows "dest st' (p @ [sentinel]) = Some (DFile (last (selectNew W (sort (filterFiles lower ex ents)))))"
  using processDir_ok[OF assms(1,2)] assms(3)
  by (auto simp: writeLastCopiedFile_def dest: WriteFile_ok)








subsection \<open>One directory\<close>


lemma processDir_trace_ok:
  assumes "processDir lower ex p ents st = (None, st')"
    and "readLastCopiedFile (dest st) p = Inr W"
    and "selectNew W (sort (filterFiles lower ex ents)) \<noteq> []"
  shows "trace st' = trace st @ MadeDir p # map (Copied p) (selectNew W (sort (filterFiles lower ex ents)))
           @ [Marked p (last (selectNew W (sort (filterFiles lower ex ents))))]"
proof -
  let ?sel = "selectNew W (sort (filterFiles lower ex ents))"
  from processDir_ok[OF assms(1,2)] assms(3) obtain t1 st2 t3 where
    c: "copyLoop ents p ?sel (st\<lparr>dest := t1, trace := trace st @ [MadeDir p]\<rparr>) = (None, st2)"
    and s: "st' = st2\<lparr>dest := t3, trace := trace st2 @ [Marked p (last ?sel)]\<rparr>"
    by blast
  from copyLoop_trace[OF c] s show ?thesis by simp
qed

text \<open>
  C6 (watermark write). When the processing of a directory completes with a non-empty list
  of selected files, the writes it made are: the destination directory, then one copy per
  selected file in ascending order, then one single write of the sentinel; the sentinel then
  holds exactly the last selected name, which is the greatest of them. With an empty list
  nothing is written at all.
\<close>

theorem watermark_written_once_after_copies:
  assumes "readLastCopiedFile (dest st) p = Inr W"
    and "processDir lower excludedExt p ents st = (None, st')"
    and "sel = selectNew W (sort (filterFiles lower excludedExt ents))"
  shows "if sel = [] then st' = st
         else trace st' = trace st @ MadeDir p # map (Copied p) sel @ [Marked p (last sel)] \<and>
              dest st' (p @ [sentinel]) = Some (DFile (last sel)) \<and>
              last sel \<in> set sel \<and> (\<forall>f\<in>set sel. f \<le> last sel)"
proof (cases "sel = []")
  case True
  with processDir_ok[OF assms(2,1)] assms(3) show ?thesis by simp
next
  case False
  then have ne: "selectNew W (sort (filterFiles lower excludedExt ents)) \<noteq> []"
    using assms(3) by simp
  have "\<forall>f\<in>set sel. f \<le> last sel"
    using last_selectNew_max[OF ne] assms(3) by simp
  with processDir_trace_ok[OF assms(2,1) ne] processDir_sentinel[OF assms(2,1) ne] False assms(3)
  show ?thesis by simp
qed


text \<open>
  C3 (monotonic watermark), as amended. When the processing of a directory completes, its
  sentinel is either untouched, or it holds a name that is not below the watermark \<open>W\<close> the
  run read (the stored content with surrounding white space trimmed, empty where there is no
  sentinel) and is strictly above it when \<open>W\<close> is not empty. In particular a stored
  watermark without surrounding white space is never lowered.
\<close>

theorem watermark_not_below_value_read:
  assumes "processDir lower excludedExt p ents st = (None, st')"
  shows "(dest st' (p @ [sentinel]) = dest st (p @ [sentinel]) \<or>
          (\<exists>W c. readLastCopiedFile (dest st) p = Inr W \<and>
                 dest st' (p @ [sentinel]) = Some (DFile c) \<and> W \<le> c \<and> (W \<noteq> [] \<longrightarrow> W < c))) \<and>
         (\<forall>c0. dest st (p @ [sentinel]) = Some (DFile c0) \<and> TrimSpace c0 = c0 \<longrightarrow>
               (\<exists>c. dest st' (p @ [sentinel]) = Some (DFile c) \<and> c0 \<le> c))"
proof -
  have a: "dest st' (p @ [sentinel]) = dest st (p @ [sentinel]) \<or>
          (\<exists>W c. readLastCopiedFile (dest st) p = Inr W \<and>
                 dest st' (p @ [sentinel]) = Some (DFile c) \<and> W \<le> c \<and> (W \<noteq> [] \<longrightarrow> W < c))"
  proof (cases "st' = st")
    case True
    then show ?thesis by simp
  next
    case False
    from processDir_changed[OF assms False] obtain W where
      W: "readLastCopiedFile (dest st) p = Inr W"
      and sel: "selectNew W (sort (filterFiles lower excludedExt ents)) \<noteq> []" by blast
    let ?m = "last (selectNew W (sort (filterFiles lower excludedExt ents)))"
    from last_sel_facts(2)[OF sel] have "W \<le> ?m \<and> (W \<noteq> [] \<longrightarrow> W < ?m)" by auto
    with processDir_sentinel[OF assms W sel] W show ?thesis by blast
  qed
  have b: "\<forall>c0. dest st (p @ [sentinel]) = Some (DFile c0) \<and> TrimSpace c0 = c0 \<longrightarrow>
               (\<exists>c. dest st' (p @ [sentinel]) = Some (DFile c) \<and> c0 \<le> c)"
  proof (intro allI impI, elim conjE)
    fix c0 assume c0: "dest st (p @ [sentinel]) = Some (DFile c0)" "TrimSpace c0 = c0"
    from read_file[of "dest st" p c0, OF c0(1)] c0(2)
    have r: "readLastCopiedFile (dest st) p = Inr c0" by simp
    from a show "\<exists>c. dest st' (p @ [sentinel]) = Some (DFile c) \<and> c0 \<le> c"
    proof
      assume "dest st' (p @ [sentinel]) = dest st (p @ [sentinel])"
      with c0(1) show ?thesis by simp
    next
      assume "\<exists>W c. readLastCopiedFile (dest st) p = Inr W \<and>
                 dest st' (p @ [sentinel]) = Some (DFile c) \<and> W \<le> c \<and> (W \<noteq> [] \<longrightarrow> W < c)"
      with r show ?thesis by auto
    qed
  qed
  from a b show ?thesis by blast
qed



subsection \<open>Where a run writes\<close>

lemma processDir_made:
  assumes "processDir lower ex p ents st = (r, st')" and "st' \<noteq> st"
  shows "\<exists>rest. trace st' = trace st @ MadeDir p # rest"
proof -
  from processDir_changed[OF assms] obtain W t1 r2 st2 where
    c: "copyLoop ents p (selectNew W (sort (filterFiles lower ex ents)))
             (st\<lparr>dest := t1, trace := trace st @ [MadeDir p]\<rparr>) = (r2, st2)"
    and f: "st' = st2 \<or> (\<exists>t3.
                    st' = st2\<lparr>dest := t3,
                      trace := trace st2 @
                        [Marked p (last (selectNew W (sort (filterFiles lower ex ents))))]\<rparr>)"
    by blast
  from copyLoop_trace_any[OF c] obtain k where
    k: "trace st2 = trace st @ MadeDir p # map (Copied p) (take k (selectNew W (sort (filterFiles lower ex ents))))"
    by auto
  from f k show ?thesis by auto
qed

lemma run_changes_below_made_dirs:
  assumes "walkLoop lower ex vs st = (r, st')" and "dest st' q \<noteq> dest st q"
  shows "\<exists>new p. trace st' = trace st @ new \<and> MadeDir p \<in> set new \<and>
           (prefix q p \<or> (\<exists>x. q = p @ [x]))"
proof -
  let ?P = "\<lambda>s. \<exists>new. trace s = trace st @ new \<and>
              (dest s q \<noteq> dest st q \<longrightarrow> (\<exists>p. MadeDir p \<in> set new \<and> (prefix q p \<or> (\<exists>x. q = p @ [x]))))"
  have "?P st'"
  proof (rule walkLoop_inv[where P = ?P, OF assms(1)])
    show "?P st" by simp
  next
    fix p ents s r1 s1
    assume P: "?P s" and c: "processDir lower ex p ents s = (r1, s1)"
    from P obtain new where n: "trace s = trace st @ new"
      "dest s q \<noteq> dest st q \<longrightarrow> (\<exists>p. MadeDir p \<in> set new \<and> (prefix q p \<or> (\<exists>x. q = p @ [x])))"
      by blast
    show "?P s1"
    proof (cases "s1 = s")
      case True
      with P show ?thesis by simp
    next
      case False
      from processDir_made[OF c False] obtain rest where
        t: "trace s1 = trace s @ MadeDir p # rest" by blast
      have t': "trace s1 = trace st @ (new @ MadeDir p # rest)" using t n(1) by simp
      have "dest s1 q \<noteq> dest st q \<longrightarrow>
              (\<exists>p'. MadeDir p' \<in> set (new @ MadeDir p # rest) \<and> (prefix q p' \<or> (\<exists>x. q = p' @ [x])))"
      proof
        assume d: "dest s1 q \<noteq> dest st q"
        show "\<exists>p'. MadeDir p' \<in> set (new @ MadeDir p # rest) \<and> (prefix q p' \<or> (\<exists>x. q = p' @ [x]))"
        proof (cases "dest s1 q = dest s q")
          case True
          with d n(2) obtain p' where "MadeDir p' \<in> set new" "prefix q p' \<or> (\<exists>x. q = p' @ [x])"
            by auto
          then show ?thesis by (intro exI[of _ p']) simp
        next
          case False
          from processDir_frame[OF c False] have "prefix q p \<or> (\<exists>x. q = p @ [x])" by blast
          then show ?thesis by (intro exI[of _ p]) simp
        qed
      qed
      with t' show ?thesis by blast
    qed
  qed
  with assms(2) show ?thesis by blast
qed

section \<open>Worked examples\<close>


lemmas eval_defs =
  processDir_def Let_def selectNew_def readLastCopiedFile_def ReadFile_def missing_def
  ensureDir_def MkdirAll_def copyFile_def openSrc_def openTrunc_def writeLastCopiedFile_def
  WriteFile_def sentinel_def plainFile_def isExcluded_def Ext_def asciiLower_def
  asciiLowerChar_def TrimSpace_def spaceRunes_def emptyDest_def syncDir_def

lemma demo_processDir:
  "processDir asciiLower [''.LOG''] [''d''] demoDir emptyDest = (None, demoAfter)"
  by (simp add: eval_defs demoDir_def demoAfter_def)

lemma demo_sync: "syncDir asciiLower [''.LOG''] (Some demoTree) emptyDest = (None, demoAfter)"
  by (simp add: syncDir_def demoTree_def demoDir_def plainFile_def
        demo_processDir[unfolded demoDir_def plainFile_def])




text \<open>
  C3 fails as stated: a first run copies the file named \<open>b\<close> followed by two spaces and
  stores that name. The file is then replaced by one named \<open>b\<close> followed by one space. The
  next run reads the watermark \<open>b\<close>, copies the new file and stores its name, which is
  below the name stored before.
\<close>

theorem watermark_lowered_counterexample:
  "syncDir asciiLower [] (Some widerTree) emptyDest = (None, widerAfter) \<and>
   dest widerAfter [''d'', sentinel] = Some (DFile ''b  '') \<and>
   fst (syncDir asciiLower [] (Some narrowerTree) widerAfter) = None \<and>
   dest (snd (syncDir asciiLower [] (Some narrowerTree) widerAfter)) [''d'', sentinel] = Some (DFile ''b '') \<and>
   ''b '' < ''b  ''"
  by (simp add: eval_defs widerTree_def narrowerTree_def widerAfter_def)

text \<open>
  C4 fails as stated: the metadata of \<open>a.txt\<close> cannot be read, yet the run returns no
  error and goes on to copy \<open>b.txt\<close> from the same directory.
\<close>

theorem metadata_error_does_not_abort_counterexample:
  "info_fails brokenInfo \<and>
   fst (syncDir asciiLower [] (Some brokenInfoTree) emptyDest) = None \<and>
   trace (snd (syncDir asciiLower [] (Some brokenInfoTree) emptyDest)) =
     [MadeDir [''d''], Copied [''d''] ''b.txt'', Marked [''d''] ''b.txt'']"
  by (simp add: eval_defs brokenInfoTree_def brokenInfo_def)




lemma demo_read1: "readLastCopiedFile (dest demoAfter) [''d''] = Inr ''a.txt''"
  by (simp add: eval_defs demoAfter_def)

lemma demo_files2: "filterFiles asciiLower [''.LOG''] demoDir2 = [''a.txt'', ''d.txt'']"
  by (simp add: eval_defs demoDir2_def demoDir_def)

lemma demo_sel2: "selectNew ''a.txt'' (sort (filterFiles asciiLower [''.LOG''] demoDir2)) = [''d.txt'']"
  by (simp add: demo_files2 selectNew_def)


lemma demo_processDir2:
  "fst (processDir asciiLower [''.LOG''] [''d''] demoDir2 demoAfter) = None"
  "trace (snd (processDir asciiLower [''.LOG''] [''d''] demoDir2 demoAfter)) =
     trace demoAfter @ [MadeDir [''d''], Copied [''d''] ''d.txt'', Marked [''d''] ''d.txt'']"
  "dest (snd (processDir asciiLower [''.LOG''] [''d''] demoDir2 demoAfter)) [''d'', sentinel] =
     Some (DFile ''d.txt'')"
  by (simp_all add: eval_defs demoDir2_def demoDir_def demoAfter_def)

lemma fst_None_eq: "fst x = None \<Longrightarrow> x = (None, snd x)"
  by (simp add: prod_eq_iff)



text \<open>The example: the watermark rises from \<open>a.txt\<close> to \<open>d.txt\<close>.\<close>

theorem watermark_not_below_value_read_witness:
  "fst (processDir asciiLower [''.LOG''] [''d''] demoDir2 demoAfter) = None \<and>
   readLastCopiedFile (dest demoAfter) [''d''] = Inr ''a.txt'' \<and>
   dest demoAfter [''d'', sentinel] = Some (DFile ''a.txt'') \<and>
   TrimSpace ''a.txt'' = ''a.txt'' \<and>
   dest (snd (processDir asciiLower [''.LOG''] [''d''] demoDir2 demoAfter)) [''d'', sentinel] =
     Some (DFile ''d.txt'') \<and>
   ''a.txt'' < ''d.txt''"
proof -
  have s: "dest demoAfter [''d'', sentinel] = Some (DFile ''a.txt'')"
    by (simp add: demoAfter_def sentinel_def)
  have t: "TrimSpace ''a.txt'' = ''a.txt''" by (simp add: eval_defs)
  from watermark_not_below_value_read[OF fst_None_eq[OF demo_processDir2(1)]]
    s t demo_read1 demo_processDir2
  show ?thesis by simp
qed

text \<open>A tree with an unreadable subdirectory, and a listing with an entry without metadata.\<close>

theorem listing_error_aborts_metadata_error_skips_witness:
  "([''d''], SDir True [], None) \<in> set (WalkDir [] unreadableTree) \<and>
   fst (syncDir asciiLower [] (Some unreadableTree) emptyDest) = Some EIO \<and>
   info_fails brokenInfo \<and>
   filterFiles asciiLower [] ([] @ (''a.txt'', SFile brokenInfo) # [(''b.txt'', plainFile ''y'')]) =
     filterFiles asciiLower [] ([] @ [(''b.txt'', plainFile ''y'')]) \<and>
   syncDir asciiLower [] None emptyDest = (Some ENOENT, emptyDest)"
proof -
  have v: "([''d''], SDir True [], None) \<in> set (WalkDir [] unreadableTree)"
    by (simp add: unreadableTree_def)
  have b: "info_fails brokenInfo" by (simp add: brokenInfo_def)
  have e: "fst (syncDir asciiLower [] (Some unreadableTree) emptyDest) = Some EIO"
    by (simp add: syncDir_def unreadableTree_def)
  from listing_error_aborts_metadata_error_skips[of "[''d'']" "[]" None unreadableTree asciiLower "[]"
      emptyDest brokenInfo "[]" "''a.txt''" "[(''b.txt'', plainFile ''y'')]"] v b e
  show ?thesis by simp
qed

text \<open>The example tree: the one file copied is \<open>a.txt\<close>.\<close>

theorem only_eligible_files_copied_witness:
  "syncDir asciiLower [''.LOG''] (Some demoTree) emptyDest = (None, demoAfter) \<and>
   trace demoAfter = trace emptyDest @ [MadeDir [''d''], Copied [''d''] ''a.txt'', Marked [''d''] ''a.txt''] \<and>
   Copied [''d''] ''a.txt'' \<in> set [MadeDir [''d''], Copied [''d''] ''a.txt'', Marked [''d''] ''a.txt''] \<and>
   (\<exists>ents sf. ([''d''], SDir False ents, None) \<in> set (WalkDir [] demoTree) \<and>
      (''a.txt'', SFile sf) \<in> set ents \<and> content sf \<noteq> [])"
proof -
  have t: "trace demoAfter = trace emptyDest @ [MadeDir [''d''], Copied [''d''] ''a.txt'', Marked [''d''] ''a.txt'']"
    by (simp add: demoAfter_def emptyDest_def)
  have m: "Copied [''d''] ''a.txt'' \<in> set [MadeDir [''d''], Copied [''d''] ''a.txt'', Marked [''d''] ''a.txt'']"
    by simp
  from only_eligible_files_copied[OF demo_sync t m] demo_sync t m show ?thesis by blast
qed

text \<open>The second run of the example.\<close>

theorem watermark_written_once_after_copies_witness:
  "readLastCopiedFile (dest demoAfter) [''d''] = Inr ''a.txt'' \<and>
   fst (processDir asciiLower [''.LOG''] [''d''] demoDir2 demoAfter) = None \<and>
   [''d.txt''] = selectNew ''a.txt'' (sort (filterFiles asciiLower [''.LOG''] demoDir2)) \<and>
   trace (snd (processDir asciiLower [''.LOG''] [''d''] demoDir2 demoAfter)) =
     trace demoAfter @ MadeDir [''d''] # map (Copied [''d'']) [''d.txt''] @ [Marked [''d''] (last [''d.txt''])] \<and>
   dest (snd (processDir asciiLower [''.LOG''] [''d''] demoDir2 demoAfter)) ([''d''] @ [sentinel]) =
     Some (DFile (last [''d.txt'']))"
  using watermark_written_once_after_copies[OF demo_read1 fst_None_eq[OF demo_processDir2(1)] demo_sel2[symmetric]]
    demo_read1 demo_processDir2(1) demo_sel2
  by simp





text \<open>The example tree: \<open>readme.txt\<close> of the source root leaves no trace in the destination.\<close>

theorem root_files_never_copied_witness:
  "syncDir asciiLower [''.LOG''] (Some demoTree) emptyDest = (None, demoAfter) \<and>
   trace demoAfter = trace emptyDest @ [MadeDir [''d''], Copied [''d''] ''a.txt'', Marked [''d''] ''a.txt''] \<and>
   dest demoAfter [''readme.txt''] = dest emptyDest [''readme.txt''] \<and>
   dest demoAfter [''d''] \<noteq> dest emptyDest [''d'']"
proof -
  have t: "trace demoAfter = trace emptyDest @ [MadeDir [''d''], Copied [''d''] ''a.txt'', Marked [''d''] ''a.txt'']"
    by (simp add: demoAfter_def emptyDest_def)
  have c: "dest demoAfter [''d''] \<noteq> dest emptyDest [''d'']"
    by (simp add: demoAfter_def emptyDest_def)
  note r = root_files_never_copied[OF demo_sync t, THEN conjunct2, THEN conjunct2, rule_format,
      of False "[(''readme.txt'', plainFile ''root file''), (''d'', SDir False demoDir)]"
         "''readme.txt''"
         "\<lparr>content = ''root file'', info_fails = False, open_fails = False, read_fails_at = None\<rparr>"
         "[''readme.txt'']"]
  have "dest demoAfter [''readme.txt''] = dest emptyDest [''readme.txt'']"
    by (rule r) (simp add: demoTree_def plainFile_def)
  with demo_sync t c show ?thesis by simp
qed

end
